theory Spec2Isabelle
  imports Main
begin

section \<open>Machine integers of mathlib.c\<close>

text \<open>
  The library computes on \<open>int32_t\<close> and \<open>int64_t\<close>. A value of these types is modelled
  by the integer it denotes; the result of \<open>+\<close>, \<open>-\<close> and \<open>*\<close> is reduced to the
  two's-complement range of the type (\<open>wrap32\<close>, \<open>wrap64\<close>), which is what the library's
  contract for add and multiply states and what the usual targets compute. (ISO C leaves
  a signed result outside the range undefined.)
\<close>

abbreviation (input) INT32_MIN :: int where "INT32_MIN \<equiv> - 2147483648"
abbreviation (input) INT32_MAX :: int where "INT32_MAX \<equiv> 2147483647"

definition is_int32 :: "int \<Rightarrow> bool" where
  "is_int32 v = (INT32_MIN \<le> v \<and> v \<le> INT32_MAX)"

definition wrap32 :: "int \<Rightarrow> int" where
  "wrap32 v = (v + 2147483648) mod 4294967296 - 2147483648"

definition wrap64 :: "int \<Rightarrow> int" where
  "wrap64 v = (v + 9223372036854775808) mod 18446744073709551616 - 9223372036854775808"

text \<open>
  C's \<open>/\<close> on \<open>int32_t\<close> truncates towards zero. It has no result for a zero divisor and
  for \<open>INT32_MIN / -1\<close>, whose quotient \<open>2^31\<close> is no \<open>int32_t\<close>: both are undefined in
  C and stop the program with a division fault on x86. \<open>None\<close> stands for that.
\<close>

definition int32_div :: "int \<Rightarrow> int \<Rightarrow> int option" where
  "int32_div a b =
     (if b = 0 \<or> (a = INT32_MIN \<and> b = - 1) then None
      else Some (sgn a * sgn b * (\<bar>a\<bar> div \<bar>b\<bar>)))"

section \<open>Pointers and return codes\<close>

text \<open>
  A pointer argument is either \<open>NULL\<close> or points to an object: \<open>Ptr v\<close> is a pointer whose
  pointee holds \<open>v\<close>. A function with an output parameter returns its code together with
  the pointer argument as it is after the call, so that a store \<open>*result = v\<close> turns
  \<open>Ptr old\<close> into \<open>Ptr v\<close> and a path without a store returns the argument as it came.
\<close>

datatype 'a ptr = NULL | Ptr 'a

abbreviation (input) MATHLIB_OK :: int where "MATHLIB_OK \<equiv> 0"
abbreviation (input) MATHLIB_ERR_NULL :: int where "MATHLIB_ERR_NULL \<equiv> - 1"
abbreviation (input) MATHLIB_ERR_RANGE :: int where "MATHLIB_ERR_RANGE \<equiv> - 2"
abbreviation (input) MATHLIB_ERR_ZERO :: int where "MATHLIB_ERR_ZERO \<equiv> - 3"

section \<open>Simple operations\<close>

definition mathlib_add :: "int \<Rightarrow> int \<Rightarrow> int" where
  "mathlib_add a b = wrap32 (a + b)"

definition mathlib_multiply :: "int \<Rightarrow> int \<Rightarrow> int" where
  "mathlib_multiply a b = wrap32 (a * b)"

section \<open>Operations that can fail\<close>

text \<open>
  The result of \<open>mathlib_divide\<close> and \<open>mathlib_sqrt\<close> is \<open>None\<close> when a division inside
  has no result, and \<open>Some (code, result)\<close> when the function returns.
\<close>

definition mathlib_divide :: "int \<Rightarrow> int \<Rightarrow> int ptr \<Rightarrow> (int \<times> int ptr) option" where
  "mathlib_divide a b result =
     (if result = NULL then Some (MATHLIB_ERR_NULL, result)
      else if b = 0 then Some (MATHLIB_ERR_ZERO, result)
      else (case int32_div a b of
              None \<Rightarrow> None
            | Some q \<Rightarrow> Some (MATHLIB_OK, Ptr q)))"

text \<open>
  The loop of \<open>mathlib_sqrt\<close>: \<open>while (y < x) { x = y; y = (x + n / x) / 2; }\<close>, returning
  the final \<open>x\<close>.
\<close>

function sqrt_loop :: "int \<Rightarrow> int \<Rightarrow> int \<Rightarrow> int option" where
  "sqrt_loop n x y =
     (if y < x then
        (case int32_div n y of
           None \<Rightarrow> None
         | Some q \<Rightarrow>
             (case int32_div (wrap32 (y + q)) 2 of
                None \<Rightarrow> None
              | Some y' \<Rightarrow> sqrt_loop n y y'))
      else Some x)"
  by pat_completeness auto
termination
proof (relation "measure (\<lambda>(n, x, y). if y < x then 1 + nat (y + 1073741826) else 0)")
  show "wf (measure (\<lambda>(n, x, y). if y < x then 1 + nat (y + 1073741826) else 0))"
    by simp
next
  fix n x y :: int and q y'
  assume yx: "y < x" and "int32_div n y = Some q"
    and d: "int32_div (wrap32 (y + q)) 2 = Some y'"
  define w where "w = wrap32 (y + q)"
  have w: "- 2147483648 \<le> w" by (simp add: w_def wrap32_def)
  from d have r: "y' = sgn w * (\<bar>w\<bar> div 2)"
    by (simp add: int32_div_def w_def split: if_splits)
  have "- 1073741824 \<le> y'"
  proof (cases "0 \<le> w")
    case True
    then have "0 \<le> \<bar>w\<bar> div 2" by simp
    with True r have "0 \<le> y'" by (simp add: sgn_if)
    then show ?thesis by simp
  next
    case False
    then have "y' = - ((- w) div 2)" using r by (simp add: sgn_if)
    with w show ?thesis by simp
  qed
  then show "((n, y, y'), (n, x, y)) \<in>
      measure (\<lambda>(n, x, y). if y < x then 1 + nat (y + 1073741826) else 0)"
    using yx by auto
qed

declare sqrt_loop.simps [simp del]

definition mathlib_sqrt :: "int \<Rightarrow> int ptr \<Rightarrow> (int \<times> int ptr) option" where
  "mathlib_sqrt n result =
     (if result = NULL then Some (MATHLIB_ERR_NULL, result)
      else if n < 0 then Some (MATHLIB_ERR_RANGE, result)
      else if n = 0 then Some (MATHLIB_OK, Ptr 0)
      else (case int32_div (wrap32 (n + 1)) 2 of
              None \<Rightarrow> None
            | Some y \<Rightarrow>
                (case sqrt_loop n n y of
                   None \<Rightarrow> None
                 | Some r \<Rightarrow> Some (MATHLIB_OK, Ptr r))))"

section \<open>Array operations\<close>

text \<open>
  An array argument points to a block of \<open>int32_t\<close> objects, the list; \<open>len\<close> is the
  \<open>size_t\<close> the caller passes. A read \<open>arr[i]\<close> beyond the block is undefined in C: the
  loops return \<open>None\<close> there.
\<close>

function sum_array_loop :: "int list \<Rightarrow> nat \<Rightarrow> nat \<Rightarrow> int \<Rightarrow> int option" where
  "sum_array_loop arr len i sum64 =
     (if i < len then
        (if i < length arr then sum_array_loop arr len (i + 1) (wrap64 (sum64 + arr ! i))
         else None)
      else Some sum64)"
  by pat_completeness auto
termination
  by (relation "measure (\<lambda>(arr, len, i, sum64). len - i)") auto

declare sum_array_loop.simps [simp del]

definition mathlib_sum_array :: "int list ptr \<Rightarrow> nat \<Rightarrow> int ptr \<Rightarrow> (int \<times> int ptr) option" where
  "mathlib_sum_array arr len result =
     (case arr of
        NULL \<Rightarrow> Some (MATHLIB_ERR_NULL, result)
      | Ptr a \<Rightarrow>
          if result = NULL then Some (MATHLIB_ERR_NULL, result)
          else (case sum_array_loop a len 0 0 of
                  None \<Rightarrow> None
                | Some sum64 \<Rightarrow> Some (MATHLIB_OK, Ptr sum64)))"

function find_max_loop :: "int list \<Rightarrow> nat \<Rightarrow> nat \<Rightarrow> int \<Rightarrow> int option" where
  "find_max_loop arr len i max32 =
     (if i < len then
        (if i < length arr
         then find_max_loop arr len (i + 1) (if arr ! i > max32 then arr ! i else max32)
         else None)
      else Some max32)"
  by pat_completeness auto
termination
  by (relation "measure (\<lambda>(arr, len, i, max32). len - i)") auto

declare find_max_loop.simps [simp del]

definition mathlib_find_max :: "int list ptr \<Rightarrow> nat \<Rightarrow> int ptr \<Rightarrow> (int \<times> int ptr) option" where
  "mathlib_find_max arr len result =
     (case arr of
        NULL \<Rightarrow> Some (MATHLIB_ERR_NULL, result)
      | Ptr a \<Rightarrow>
          if result = NULL then Some (MATHLIB_ERR_NULL, result)
          else if len = 0 then Some (MATHLIB_ERR_RANGE, result)
          else (case a of
                  [] \<Rightarrow> None
                | a0 # _ \<Rightarrow>
                    (case find_max_loop a len 1 a0 of
                       None \<Rightarrow> None
                     | Some max32 \<Rightarrow> Some (MATHLIB_OK, Ptr max32))))"

section \<open>String operations\<close>

text \<open>
  A \<open>const char*\<close> argument points to the bytes at its address, the list. The C string is
  the part before the first NUL byte; the end of the list stands for the terminator of a
  list without one. \<open>strlen\<close> and \<open>strtol\<close> are the C library's: they are modelled from
  ISO C (7.24.6.3 and 7.22.1.4), \<open>strtol\<close> for base 10 in the C locale with a 64-bit
  \<open>long\<close>.
\<close>

definition c_str :: "string \<Rightarrow> string" where
  "c_str mem = takeWhile (\<lambda>c. c \<noteq> CHR 0x00) mem"

definition deref :: "string \<Rightarrow> nat \<Rightarrow> char" where
  "deref mem i = (if i < length mem then mem ! i else CHR 0x00)"

definition strlen :: "string \<Rightarrow> nat" where
  "strlen mem = length (c_str mem)"

definition mathlib_strlen :: "string ptr \<Rightarrow> nat" where
  "mathlib_strlen str = (case str of NULL \<Rightarrow> 0 | Ptr mem \<Rightarrow> strlen mem)"

definition isspace :: "char \<Rightarrow> bool" where
  "isspace c = (c = CHR '' '' \<or> c = CHR 0x09 \<or> c = CHR 0x0A \<or> c = CHR 0x0B
     \<or> c = CHR 0x0C \<or> c = CHR 0x0D)"

definition isdigit :: "char \<Rightarrow> bool" where
  "isdigit c = (48 \<le> (of_char c :: nat) \<and> (of_char c :: nat) \<le> 57)"

definition digit_value :: "char \<Rightarrow> int" where
  "digit_value c = int (of_char c) - 48"

definition decimal_value :: "string \<Rightarrow> int" where
  "decimal_value ds = foldl (\<lambda>acc c. 10 * acc + digit_value c) 0 ds"

abbreviation (input) LONG_MIN :: int where "LONG_MIN \<equiv> - 9223372036854775808"
abbreviation (input) LONG_MAX :: int where "LONG_MAX \<equiv> 9223372036854775807"
abbreviation (input) ERANGE :: int where "ERANGE \<equiv> 34"

text \<open>
  \<open>strtol mem\<close> is \<open>strtol(str, &endptr, 10)\<close> called with \<open>errno = 0\<close>: the value returned,
  the offset \<open>endptr - str\<close>, and \<open>errno\<close> after the call. It skips white space, takes an
  optional sign and the longest run of digits; without a digit nothing is converted
  (value 0, \<open>endptr = str\<close>); a value outside \<open>long\<close> is clamped with \<open>errno = ERANGE\<close>.
\<close>

definition strtol :: "string \<Rightarrow> int \<times> nat \<times> int" where
  "strtol mem =
     (let ws = takeWhile isspace mem;
          r1 = dropWhile isspace mem;
          neg = (r1 \<noteq> [] \<and> hd r1 = CHR ''-'');
          nsign = (if r1 \<noteq> [] \<and> (hd r1 = CHR ''-'' \<or> hd r1 = CHR ''+'') then 1 else 0);
          ds = takeWhile isdigit (drop nsign r1);
          v = (if neg then - decimal_value ds else decimal_value ds);
          endptr = length ws + nsign + length ds
      in if ds = [] then (0, 0, 0)
         else if v > LONG_MAX then (LONG_MAX, endptr, ERANGE)
         else if v < LONG_MIN then (LONG_MIN, endptr, ERANGE)
         else (v, endptr, 0))"

definition mathlib_parse_int :: "string ptr \<Rightarrow> int ptr \<Rightarrow> int \<times> int ptr" where
  "mathlib_parse_int str result =
     (case str of
        NULL \<Rightarrow> (MATHLIB_ERR_NULL, result)
      | Ptr mem \<Rightarrow>
          if result = NULL then (MATHLIB_ERR_NULL, result)
          else (case strtol mem of (val, endptr, errno) \<Rightarrow>
            if errno \<noteq> 0 \<or> endptr = 0 \<or> deref mem endptr \<noteq> CHR 0x00
            then (MATHLIB_ERR_RANGE, result)
            else if val < INT32_MIN \<or> val > INT32_MAX then (MATHLIB_ERR_RANGE, result)
            else (MATHLIB_OK, Ptr (wrap32 val))))"

text \<open>
  The reading of the specification's ``fully-consumed base-10 integer'', to compare
  \<open>mathlib_parse_int\<close> with: the whole text is white space, then an optional sign, then one
  or more decimal digits; its value is the signed decimal number.
\<close>

definition base10_integer :: "string \<Rightarrow> int option" where
  "base10_integer txt =
     (let body = dropWhile isspace txt;
          digits = (case body of
                      [] \<Rightarrow> []
                    | c # cs \<Rightarrow> if c = CHR ''-'' \<or> c = CHR ''+'' then cs else body)
      in if digits \<noteq> [] \<and> list_all isdigit digits
         then Some (case body of
                      [] \<Rightarrow> 0
                    | c # cs \<Rightarrow> if c = CHR ''-'' then - decimal_value digits
                                else decimal_value digits)
         else None)"

section \<open>Struct handling\<close>

text \<open>
  The fields \<open>x\<close> and \<open>y\<close> of \<open>Point\<close> are \<open>point_x\<close> and \<open>point_y\<close> here, so that \<open>x\<close> and
  \<open>y\<close> stay free for the variables of \<open>mathlib_sqrt\<close>.
\<close>

record Point =
  point_x :: int
  point_y :: int

record Rectangle =
  top_left :: Point
  bottom_right :: Point

definition mathlib_point_distance_squared :: "Point ptr \<Rightarrow> Point ptr \<Rightarrow> int" where
  "mathlib_point_distance_squared a b =
     (case a of
        NULL \<Rightarrow> - 1
      | Ptr pa \<Rightarrow>
          (case b of
             NULL \<Rightarrow> - 1
           | Ptr pb \<Rightarrow>
               (let dx = wrap32 (point_x pb - point_x pa);
                    dy = wrap32 (point_y pb - point_y pa)
                in wrap32 (wrap32 (dx * dx) + wrap32 (dy * dy)))))"

definition mathlib_rectangle_area :: "Rectangle ptr \<Rightarrow> int" where
  "mathlib_rectangle_area rect =
     (case rect of
        NULL \<Rightarrow> - 1
      | Ptr r \<Rightarrow>
          (let width = wrap32 (point_x (bottom_right r) - point_x (top_left r));
               height = wrap32 (point_y (bottom_right r) - point_y (top_left r));
               width = (if width < 0 then wrap32 (- width) else width);
               height = (if height < 0 then wrap32 (- height) else height)
           in wrap32 (width * height)))"


section \<open>Verification: division\<close>

text \<open>
  Apart from a zero divisor and \<open>INT32_MIN / -1\<close>, the quotient written by
  \<open>mathlib_divide\<close> leaves a remainder smaller than the divisor with the sign of the
  dividend, and it is an \<open>int32_t\<close>.
\<close>

lemma int32_div_remainder:
  assumes "b \<noteq> 0" "\<not> (a = - 2147483648 \<and> b = - 1)"
  shows "\<exists>q. int32_div a b = Some q \<and> \<bar>a - b * q\<bar> < \<bar>b\<bar>
           \<and> (0 \<le> a \<longrightarrow> 0 \<le> a - b * q) \<and> (a \<le> 0 \<longrightarrow> a - b * q \<le> 0)"
proof -
  define m where "m = \<bar>a\<bar> mod \<bar>b\<bar>"
  define q where "q = sgn a * sgn b * (\<bar>a\<bar> div \<bar>b\<bar>)"
  have m: "0 \<le> m" "m < \<bar>b\<bar>" using assms(1) by (simp_all add: m_def)
  have "b * q = sgn a * (\<bar>b\<bar> * (\<bar>a\<bar> div \<bar>b\<bar>))"
    by (simp add: q_def abs_sgn mult.assoc mult.left_commute)
  also have "\<bar>b\<bar> * (\<bar>a\<bar> div \<bar>b\<bar>) = \<bar>a\<bar> - m"
    by (simp add: m_def minus_mod_eq_mult_div)
  finally have "a - b * q = sgn a * m"
    by (simp add: algebra_simps sgn_if abs_if)
  then have "\<bar>a - b * q\<bar> < \<bar>b\<bar>" "0 \<le> a \<longrightarrow> 0 \<le> a - b * q" "a \<le> 0 \<longrightarrow> a - b * q \<le> 0"
    using m by (auto simp: sgn_if abs_if split: if_splits)
  moreover have "int32_div a b = Some q" using assms by (simp add: int32_div_def q_def)
  ultimately show ?thesis by blast
qed

lemma int32_div_range:
  assumes "is_int32 a" "int32_div a b = Some q"
  shows "is_int32 q"
proof -
  from assms(2) have b: "b \<noteq> 0" and nb: "\<not> (a = - 2147483648 \<and> b = - 1)"
    and q: "q = sgn a * sgn b * (\<bar>a\<bar> div \<bar>b\<bar>)"
    by (auto simp: int32_div_def split: if_splits)
  have "\<bar>a\<bar> div \<bar>b\<bar> \<le> \<bar>a\<bar> div 1" using b by (intro zdiv_mono2) auto
  then have le: "\<bar>a\<bar> div \<bar>b\<bar> \<le> \<bar>a\<bar>" by simp
  have nn: "0 \<le> \<bar>a\<bar> div \<bar>b\<bar>" by (simp add: pos_imp_zdiv_nonneg_iff b)
  show ?thesis
  proof (cases "a = - 2147483648")
    case False
    with assms(1) have "\<bar>a\<bar> \<le> 2147483647" unfolding is_int32_def by linarith
    with le nn show ?thesis by (auto simp: q is_int32_def sgn_if)
  next
    case True
    show ?thesis
    proof (cases "\<bar>b\<bar> = 1")
      case True
      with nb \<open>a = - 2147483648\<close> have "b = 1" by (auto simp: abs_if split: if_splits)
      with \<open>a = - 2147483648\<close> show ?thesis by (simp add: q is_int32_def)
    next
      case False
      with b have "2 \<le> \<bar>b\<bar>" by simp
      then have "\<bar>a\<bar> div \<bar>b\<bar> \<le> \<bar>a\<bar> div 2" by (intro zdiv_mono2) auto
      with True have "\<bar>a\<bar> div \<bar>b\<bar> \<le> 1073741824" by simp
      with nn show ?thesis by (auto simp: q is_int32_def sgn_if)
    qed
  qed
qed

lemma mathlib_divide_quotient:
  assumes "b \<noteq> 0" "\<not> (a = - 2147483648 \<and> b = - 1)"
  shows "\<exists>q. mathlib_divide a b (Ptr q0) = Some (MATHLIB_OK, Ptr q) \<and> \<bar>a - b * q\<bar> < \<bar>b\<bar>
           \<and> (0 \<le> a \<longrightarrow> 0 \<le> a - b * q) \<and> (a \<le> 0 \<longrightarrow> a - b * q \<le> 0)"
  using int32_div_remainder [OF assms] assms(1) by (auto simp: mathlib_divide_def)


text \<open>
  C2. The claim: for every \<open>int32_t\<close> \<open>a\<close> and every non-zero \<open>b\<close>, with a non-null output
  pointer, divide returns OK and writes the truncating quotient \<open>q\<close> with
  \<open>a = b*q + r\<close>, \<open>|r| < |b|\<close>. The code guards the zero divisor only. At
  \<open>a = INT32_MIN\<close>, \<open>b = -1\<close> the division \<open>a / b\<close> has no result (the quotient \<open>2^31\<close> is
  no \<open>int32_t\<close>), so the call does not return OK, and no 32-bit \<open>q\<close> satisfies the
  equation there.
\<close>

theorem mathlib_divide_overflow:
  "mathlib_divide INT32_MIN (- 1) (Ptr q0) = None
   \<and> \<not> (\<exists>q r. is_int32 q \<and> \<bar>r\<bar> < \<bar>- 1 :: int\<bar> \<and> INT32_MIN = (- 1) * q + r)"
  by (auto simp: mathlib_divide_def int32_div_def is_int32_def)


section \<open>Verification: integer square root\<close>

text \<open>
  For \<open>0 \<le> n < INT32_MAX\<close> no intermediate result leaves the \<open>int32_t\<close> range, no
  division is by zero, the loop ends and the value written is the integral root. The
  loop invariant is \<open>1 \<le> x \<le> n < (x + 1)\<^sup>2\<close> with \<open>y = (x + n / x) / 2\<close>.
\<close>

lemma wrap32_id: "is_int32 v \<Longrightarrow> wrap32 v = v"
  by (simp add: is_int32_def wrap32_def)

lemma int32_div_nonneg: "0 \<le> a \<Longrightarrow> 0 < b \<Longrightarrow> int32_div a b = Some (a div b)"
  by (simp add: int32_div_def sgn_if)

lemma mult_div_le_int:
  fixes x n :: int
  assumes "1 \<le> x"
  shows "x * (n div x) \<le> n"
proof -
  have "n = x * (n div x) + n mod x" by simp
  moreover have "0 \<le> n mod x" using assms by simp
  ultimately show ?thesis by linarith
qed

lemma newton_step_upper:
  fixes x n :: int
  assumes "1 \<le> x" "x \<le> n"
  shows "x + n div x \<le> n + 1"
proof -
  define q where "q = n div x"
  have xq: "x * q \<le> n" unfolding q_def using assms(1) by (rule mult_div_le_int)
  have "x div x \<le> n div x" using assms by (intro zdiv_mono1) auto
  then have q1: "1 \<le> q" using assms by (simp add: q_def)
  have "0 \<le> (x - 1) * (q - 1)" using assms q1 by simp
  then have "x + q \<le> x * q + 1" by (simp add: algebra_simps)
  with xq show ?thesis by (simp add: q_def)
qed

lemma newton_step_above_root:
  fixes x n :: int
  assumes "1 \<le> x" "0 \<le> n"
  shows "n < ((x + n div x) div 2 + 1) * ((x + n div x) div 2 + 1)"
proof -
  define q where "q = n div x"
  define y where "y = (x + q) div 2"
  have q0: "0 \<le> q" using assms by (simp add: q_def pos_imp_zdiv_nonneg_iff)
  have "n = x * q + n mod x" by (simp add: q_def)
  moreover have "n mod x < x" using assms by simp
  ultimately have n: "n < x * (q + 1)" by (simp add: algebra_simps)
  have "x + q + 1 \<le> 2 * (y + 1)" unfolding y_def by presburger
  moreover have "0 \<le> x + q + 1" using assms q0 by simp
  ultimately have "(x + q + 1) * (x + q + 1) \<le> (2 * (y + 1)) * (2 * (y + 1))"
    by (intro mult_mono) auto
  moreover have "0 \<le> (x - (q + 1)) * (x - (q + 1))" by simp
  then have "4 * (x * (q + 1)) \<le> (x + q + 1) * (x + q + 1)" by (simp add: algebra_simps)
  ultimately have "4 * n < 4 * ((y + 1) * (y + 1))" using n by (simp add: algebra_simps)
  then show ?thesis by (simp add: y_def q_def)
qed

lemma sqrt_loop_correct:
  "1 \<le> x \<Longrightarrow> x \<le> n \<Longrightarrow> n \<le> 2147483646 \<Longrightarrow> n < (x + 1) * (x + 1) \<Longrightarrow>
   y = (x + n div x) div 2 \<Longrightarrow>
   \<exists>r. sqrt_loop n x y = Some r \<and> 0 \<le> r \<and> r * r \<le> n \<and> n < (r + 1) * (r + 1)"
proof (induction n x y rule: sqrt_loop.induct)
  case (1 n x y)
  show ?case
  proof (cases "y < x")
    case True
    have above: "n < (y + 1) * (y + 1)"
      using newton_step_above_root [of x n] "1.prems" by simp
    have y0: "0 \<le> y" using "1.prems" by (simp add: pos_imp_zdiv_nonneg_iff)
    have y1: "1 \<le> y"
    proof (rule ccontr)
      assume "\<not> 1 \<le> y"
      with y0 have "y = 0" by simp
      with above "1.prems" show False by simp
    qed
    have yn: "y \<le> n" using True "1.prems" by simp
    have d1: "int32_div n y = Some (n div y)"
      using y1 yn by (intro int32_div_nonneg) auto
    have up: "y + n div y \<le> n + 1" using y1 yn by (rule newton_step_upper)
    have lo: "0 \<le> y + n div y" using y1 yn by (simp add: pos_imp_zdiv_nonneg_iff)
    have w: "wrap32 (y + n div y) = y + n div y"
      using up lo "1.prems" by (intro wrap32_id) (simp add: is_int32_def)
    have d2: "int32_div (wrap32 (y + n div y)) 2 = Some ((y + n div y) div 2)"
      unfolding w using lo by (intro int32_div_nonneg) auto
    have "\<exists>r. sqrt_loop n y ((y + n div y) div 2) = Some r \<and> 0 \<le> r \<and> r * r \<le> n
        \<and> n < (r + 1) * (r + 1)"
      using "1.IH" [OF True d1 d2 y1 yn _ above] "1.prems" by simp
    moreover have "sqrt_loop n x y = sqrt_loop n y ((y + n div y) div 2)"
      using True d1 d2 by (subst sqrt_loop.simps) simp
    ultimately show ?thesis by simp
  next
    case False
    then have "2 * x \<le> x + n div x" using "1.prems" by linarith
    then have "x \<le> n div x" by simp
    then have "x * x \<le> x * (n div x)" using "1.prems" by (intro mult_left_mono) auto
    also have "\<dots> \<le> n" using "1.prems" by (intro mult_div_le_int)
    finally have "x * x \<le> n" .
    moreover have "sqrt_loop n x y = Some x" using False by (subst sqrt_loop.simps) simp
    ultimately show ?thesis using "1.prems" by simp
  qed
qed

lemma mathlib_sqrt_floor:
  assumes "0 \<le> n" "n \<le> 2147483646"
  shows "\<exists>r. mathlib_sqrt n (Ptr r0) = Some (MATHLIB_OK, Ptr r) \<and> 0 \<le> r \<and> r * r \<le> n \<and> n < (r + 1) * (r + 1)"
proof (cases "n = 0")
  case True
  then show ?thesis by (simp add: mathlib_sqrt_def)
next
  case False
  with assms have n1: "1 \<le> n" by simp
  have w: "wrap32 (n + 1) = n + 1" using assms by (intro wrap32_id) (simp add: is_int32_def)
  have d: "int32_div (wrap32 (n + 1)) 2 = Some ((n + 1) div 2)"
    unfolding w using assms by (intro int32_div_nonneg) auto
  have "0 \<le> n * n" by simp
  moreover have "(n + 1) * (n + 1) = n * n + 2 * n + 1" by (simp add: algebra_simps)
  ultimately have "n < (n + 1) * (n + 1)" using n1 by linarith
  then obtain r where "sqrt_loop n n ((n + 1) div 2) = Some r" "0 \<le> r" "r * r \<le> n" "n < (r + 1) * (r + 1)"
    using sqrt_loop_correct [of n n "(n + 1) div 2"] n1 assms by auto
  then show ?thesis using n1 d by (simp add: mathlib_sqrt_def)
qed

lemma mathlib_sqrt_negative:
  "n < 0 \<Longrightarrow> mathlib_sqrt n (Ptr r0) = Some (MATHLIB_ERR_RANGE, Ptr r0)"
  by (simp add: mathlib_sqrt_def)

text \<open>
  C1. The claim: for every \<open>n \<ge> 0\<close> and a non-null output pointer, integerSqrt returns OK
  after writing \<open>r\<close> with \<open>r*r \<le> n < (r+1)*(r+1)\<close>, and returns ERR_RANGE for \<open>n < 0\<close>.
  At \<open>n = INT32_MAX\<close> the first step \<open>y = (x + 1) / 2\<close> leaves the \<open>int32_t\<close> range:
  \<open>x + 1\<close> wraps to \<open>INT32_MIN\<close>, the loop runs once and the function returns OK with
  \<open>-1073741824\<close>, which is no square root of \<open>n\<close>.
\<close>

theorem mathlib_sqrt_int32_max:
  "mathlib_sqrt INT32_MAX (Ptr r0) = Some (MATHLIB_OK, Ptr (- 1073741824))
   \<and> \<not> ((- 1073741824) * (- 1073741824) \<le> INT32_MAX)"
  by (simp add: mathlib_sqrt_def sqrt_loop.simps int32_div_def wrap32_def)


section \<open>Verification: output parameters\<close>

text \<open>
  C3. For each of the five fallible operations and every input: when the call returns
  a code other than OK, the output parameter holds what it held before the call (it is
  written only on the path that returns OK); and \<open>divide(a, 0, &q)\<close> returns ERR_ZERO
  and leaves \<open>q\<close> as it was, for every \<open>a\<close> and every non-null \<open>q\<close>.
\<close>

theorem failure_leaves_output_untouched:
  "(\<forall>code out. mathlib_divide a b result = Some (code, out) \<longrightarrow> code \<noteq> MATHLIB_OK
      \<longrightarrow> out = result)
   \<and> (\<forall>code out. mathlib_sqrt n result = Some (code, out) \<longrightarrow> code \<noteq> MATHLIB_OK
      \<longrightarrow> out = result)
   \<and> (\<forall>code out. mathlib_sum_array arr1 len1 result64 = Some (code, out)
      \<longrightarrow> code \<noteq> MATHLIB_OK \<longrightarrow> out = result64)
   \<and> (\<forall>code out. mathlib_find_max arr2 len2 result = Some (code, out)
      \<longrightarrow> code \<noteq> MATHLIB_OK \<longrightarrow> out = result)
   \<and> (\<forall>code out. mathlib_parse_int str result = (code, out) \<longrightarrow> code \<noteq> MATHLIB_OK
      \<longrightarrow> out = result)
   \<and> mathlib_divide a 0 (Ptr q) = Some (MATHLIB_ERR_ZERO, Ptr q)"
proof (intro conjI allI impI)
  fix code out
  assume "mathlib_divide a b result = Some (code, out)" "code \<noteq> MATHLIB_OK"
  then show "out = result"
    by (auto simp: mathlib_divide_def split: if_splits option.splits)
next
  fix code out
  assume "mathlib_sqrt n result = Some (code, out)" "code \<noteq> MATHLIB_OK"
  then show "out = result"
    by (auto simp: mathlib_sqrt_def split: if_splits option.splits)
next
  fix code out
  assume "mathlib_sum_array arr1 len1 result64 = Some (code, out)" "code \<noteq> MATHLIB_OK"
  then show "out = result64"
    by (auto simp: mathlib_sum_array_def split: if_splits option.splits ptr.splits)
next
  fix code out
  assume "mathlib_find_max arr2 len2 result = Some (code, out)" "code \<noteq> MATHLIB_OK"
  then show "out = result"
    by (auto simp: mathlib_find_max_def split: if_splits option.splits ptr.splits list.splits)
next
  fix code out
  assume "mathlib_parse_int str result = (code, out)" "code \<noteq> MATHLIB_OK"
  then show "out = result"
    by (auto simp: mathlib_parse_int_def split: if_splits ptr.splits prod.splits)
next
  show "mathlib_divide a 0 (Ptr q) = Some (MATHLIB_ERR_ZERO, Ptr q)"
    by (simp add: mathlib_divide_def)
qed


theorem failure_leaves_output_untouched_witness:
  "mathlib_divide 7 0 (Ptr 5) = Some (MATHLIB_ERR_ZERO, Ptr 5)
   \<and> mathlib_sqrt (- 4) (Ptr 5) = Some (MATHLIB_ERR_RANGE, Ptr 5)
   \<and> mathlib_sum_array NULL 3 (Ptr 5) = Some (MATHLIB_ERR_NULL, Ptr 5)
   \<and> mathlib_find_max (Ptr []) 0 (Ptr 5) = Some (MATHLIB_ERR_RANGE, Ptr 5)
   \<and> mathlib_parse_int (Ptr ''42x'') (Ptr 5) = (MATHLIB_ERR_RANGE, Ptr 5)"
proof -
  have p: "mathlib_parse_int (Ptr ''42x'') (Ptr 5) = (MATHLIB_ERR_RANGE, Ptr 5)"
    by code_simp
  show ?thesis
    using p
      failure_leaves_output_untouched [of 7 0 "Ptr 5" "- 4" NULL 3 "Ptr 5" "Ptr []" 0 "Ptr ''42x''" 5]
    by (simp add: mathlib_divide_def mathlib_sqrt_def mathlib_sum_array_def mathlib_find_max_def)
qed


section \<open>Verification: strings\<close>

text \<open>
  C10. \<open>mathlib_strlen\<close> returns 0 for a null pointer, and for a pointer to a
  NUL-terminated string (the characters \<open>s\<close>, none of them NUL, then the terminator, then
  whatever follows in memory) it returns the number of characters of \<open>s\<close>.
\<close>

theorem mathlib_strlen_total:
  "mathlib_strlen NULL = 0
   \<and> (CHR 0x00 \<notin> set s \<longrightarrow> mathlib_strlen (Ptr (s @ CHR 0x00 # rest)) = length s)"
proof -
  have "c_str (s @ CHR 0x00 # rest) = s" if "CHR 0x00 \<notin> set s"
  proof -
    have "takeWhile (\<lambda>c. c \<noteq> CHR 0x00) (s @ CHR 0x00 # rest) = takeWhile (\<lambda>c. c \<noteq> CHR 0x00) s"
      by (rule takeWhile_tail) simp
    also have "\<dots> = s" using that by (auto simp: takeWhile_eq_all_conv)
    finally show ?thesis by (simp add: c_str_def)
  qed
  then show ?thesis by (simp add: mathlib_strlen_def strlen_def)
qed

theorem mathlib_strlen_total_witness:
  "CHR 0x00 \<notin> set ''abc'' \<and> mathlib_strlen (Ptr (''abc'' @ CHR 0x00 # ''xy'')) = 3"
  using mathlib_strlen_total [of "''abc''" "''xy''"] by simp


section \<open>Verification: array sum\<close>

text \<open>
  With fewer than \<open>2^32\<close> elements, after \<open>i\<close> elements the accumulator is at most
  \<open>i * 2^31\<close> in absolute value, which stays inside \<open>int64_t\<close>.
\<close>

lemma sum_array_loop_sum:
  assumes "len \<le> length arr" "\<forall>v\<in>set (take len arr). is_int32 v" "len < 4294967296"
  shows "i \<le> len \<Longrightarrow> \<bar>s\<bar> \<le> int i * 2147483648 \<Longrightarrow>
         sum_array_loop arr len i s = Some (s + sum_list (drop i (take len arr)))"
proof (induction "len - i" arbitrary: i s)
  case 0
  then have "i = len" by simp
  then show ?case by (subst sum_array_loop.simps) simp
next
  case (Suc k)
  then have il: "i < len" by simp
  with assms(1) have ia: "i < length arr" by simp
  from il assms(1) have "arr ! i \<in> set (take len arr)"
    by (metis in_set_conv_nth length_take min.absorb2 nth_take)
  with assms(2) have e: "is_int32 (arr ! i)" by blast
  have "int (i + 1) * 2147483648 = int i * 2147483648 + 2147483648"
    by (simp add: algebra_simps)
  then have b1: "\<bar>s + arr ! i\<bar> \<le> int (i + 1) * 2147483648"
    using Suc.prems(2) e unfolding is_int32_def by linarith
  have "int (i + 1) \<le> 4294967295" using il assms(3) by simp
  then have "int (i + 1) * 2147483648 \<le> 4294967295 * 2147483648"
    by (intro mult_right_mono) auto
  with b1 have "\<bar>s + arr ! i\<bar> < 9223372036854775808" by simp
  then have w: "wrap64 (s + arr ! i) = s + arr ! i" by (simp add: wrap64_def)
  have d: "drop i (take len arr) = arr ! i # drop (i + 1) (take len arr)"
    using il assms(1) by (simp add: Cons_nth_drop_Suc [symmetric])
  have "sum_array_loop arr len (i + 1) (s + arr ! i)
      = Some (s + arr ! i + sum_list (drop (i + 1) (take len arr)))"
    using Suc.hyps(2) il b1 by (intro Suc.hyps(1)) auto
  then show ?case using il ia w d by (subst sum_array_loop.simps) simp
qed


text \<open>
  C8. For an array of \<open>len < 2^32\<close> elements of type \<open>int32_t\<close> (the block the pointer
  refers to has at least \<open>len\<close> elements) \<open>mathlib_sum_array\<close> returns OK and writes the
  exact sum of the first \<open>len\<close> elements, which is an \<open>int64_t\<close>; and
  \<open>sumArray([1,2,3,4], 4)\<close> gives OK with 10.
\<close>

theorem mathlib_sum_array_exact:
  "(len \<le> length arr \<and> (\<forall>v\<in>set (take len arr). is_int32 v) \<and> len < 4294967296 \<longrightarrow>
      mathlib_sum_array (Ptr arr) len (Ptr r0) = Some (MATHLIB_OK, Ptr (sum_list (take len arr)))
      \<and> - 9223372036854775808 \<le> sum_list (take len arr)
      \<and> sum_list (take len arr) \<le> 9223372036854775807)
   \<and> mathlib_sum_array (Ptr [1, 2, 3, 4]) 4 (Ptr r0) = Some (MATHLIB_OK, Ptr 10)"
proof -
  have main: "mathlib_sum_array (Ptr arr) len (Ptr r0)
      = Some (MATHLIB_OK, Ptr (sum_list (take len arr)))"
    if "len \<le> length arr" "\<forall>v\<in>set (take len arr). is_int32 v" "len < 4294967296"
    for arr len
    using sum_array_loop_sum [OF that, of 0 0] by (simp add: mathlib_sum_array_def)
  have bound: "\<bar>sum_list xs\<bar> \<le> int (length xs) * 2147483648" if "\<forall>v\<in>set xs. is_int32 v" for xs
  using that
  proof (induction xs)
    case Nil
    then show ?case by simp
  next
    case (Cons v vs)
    then have "\<bar>sum_list vs\<bar> \<le> int (length vs) * 2147483648" "is_int32 v" by simp_all
    moreover have "int (length (v # vs)) * 2147483648 = int (length vs) * 2147483648 + 2147483648"
      by (simp add: algebra_simps)
    ultimately show ?case unfolding is_int32_def by simp linarith
  qed
  have rng: "- 9223372036854775808 \<le> sum_list (take len arr)
      \<and> sum_list (take len arr) \<le> 9223372036854775807"
    if "len \<le> length arr" "\<forall>v\<in>set (take len arr). is_int32 v" "len < 4294967296"
  proof -
    have "int (length (take len arr)) \<le> 4294967295" using that by simp
    then have "int (length (take len arr)) * 2147483648 \<le> 4294967295 * 2147483648"
      by (intro mult_right_mono) auto
    with bound [OF that(2)] show ?thesis by linarith
  qed
  have ex: "mathlib_sum_array (Ptr [1, 2, 3, 4]) 4 (Ptr r0) = Some (MATHLIB_OK, Ptr 10)"
    using main [of 4 "[1, 2, 3, 4]"] by (simp add: is_int32_def)
  show ?thesis using main rng ex by blast
qed

theorem mathlib_sum_array_exact_witness:
  "mathlib_sum_array (Ptr [2147483647, 2147483647, - 5]) 2 (Ptr 0) = Some (MATHLIB_OK, Ptr 4294967294)"
  using mathlib_sum_array_exact [of 2 "[2147483647, 2147483647, - 5]" 0]
  by (simp add: is_int32_def)


section \<open>Verification: array maximum\<close>

text \<open>
  The loop is the left-to-right scan that replaces the running maximum on a strictly
  greater element only, and that scan computes the greatest element.
\<close>

lemma find_max_loop_foldl:
  assumes "len \<le> length arr"
  shows "i \<le> len \<Longrightarrow>
         find_max_loop arr len i m
           = Some (foldl (\<lambda>m v. if v > m then v else m) m (drop i (take len arr)))"
proof (induction "len - i" arbitrary: i m)
  case 0
  then have "i = len" by simp
  then show ?case by (subst find_max_loop.simps) simp
next
  case (Suc k)
  then have il: "i < len" by simp
  with assms have ia: "i < length arr" by simp
  have d: "drop i (take len arr) = arr ! i # drop (i + 1) (take len arr)"
    using il assms by (simp add: Cons_nth_drop_Suc [symmetric])
  have "find_max_loop arr len (i + 1) (if arr ! i > m then arr ! i else m)
      = Some (foldl (\<lambda>m v. if v > m then v else m) (if arr ! i > m then arr ! i else m)
               (drop (i + 1) (take len arr)))"
    using Suc.hyps(2) il by (intro Suc.hyps(1)) auto
  then show ?case using il ia d by (subst find_max_loop.simps) simp
qed

lemma foldl_scan_Max:
  "foldl (\<lambda>m v. if v > m then v else m) (m :: int) xs = Max (insert m (set xs))"
proof (induction xs arbitrary: m)
  case Nil
  then show ?case by simp
next
  case (Cons v vs)
  have "Max (insert m (set (v # vs))) = Max (insert (max m v) (set vs))"
  proof -
    have "insert m (set (v # vs)) = insert m (insert v (set vs))" by simp
    then have "Max (insert m (set (v # vs))) = max m (Max (insert v (set vs)))" by simp
    also have "\<dots> = max m (if set vs = {} then v else max v (Max (set vs)))"
      by (simp add: Max_insert)
    also have "\<dots> = Max (insert (max m v) (set vs))"
      by (cases "set vs = {}") (simp_all add: max.assoc)
    finally show ?thesis .
  qed
  moreover have "(if v > m then v else m) = max m v" by (simp add: max_def)
  ultimately show ?case using Cons.IH [of "max m v"] by simp
qed


text \<open>
  C5. With non-null array and output pointers, \<open>mathlib_find_max\<close> returns ERR_RANGE
  for \<open>len = 0\<close>. For \<open>len > 0\<close> (the block holding at least \<open>len\<close> elements) it returns OK
  and writes \<open>m\<close>, where \<open>m\<close> is the result of the scan that starts from \<open>arr[0]\<close> and
  replaces on strictly greater only, \<open>m\<close> is the greatest of the \<open>len\<close> elements, and the
  first index \<open>i\<close> holding \<open>m\<close> has only strictly smaller elements before it (a later
  equal element does not replace it).
\<close>

theorem mathlib_find_max_scan:
  "mathlib_find_max (Ptr arr) 0 (Ptr r0) = Some (MATHLIB_ERR_RANGE, Ptr r0)
   \<and> (0 < len \<and> len \<le> length arr \<longrightarrow>
        (\<exists>m i. mathlib_find_max (Ptr arr) len (Ptr r0) = Some (MATHLIB_OK, Ptr m)
           \<and> m = foldl (\<lambda>m v. if v > m then v else m) (arr ! 0) (tl (take len arr))
           \<and> m = Max (set (take len arr))
           \<and> (\<forall>j<len. arr ! j \<le> m)
           \<and> i < len \<and> arr ! i = m \<and> (\<forall>j<i. arr ! j < m)))"
proof (intro conjI impI)
  show "mathlib_find_max (Ptr arr) 0 (Ptr r0) = Some (MATHLIB_ERR_RANGE, Ptr r0)"
    by (simp add: mathlib_find_max_def)
next
  assume h: "0 < len \<and> len \<le> length arr"
  then obtain l where len: "len = Suc l" by (cases len) simp_all
  from h len obtain a0 as where arr: "arr = a0 # as" by (cases arr) simp_all
  define xs where "xs = take len arr"
  define m where "m = foldl (\<lambda>m v. if v > m then v else m) (arr ! 0) (tl xs)"
  have xs: "xs = a0 # tl xs" by (simp add: xs_def arr len)
  have lxs: "length xs = len" using h by (simp add: xs_def)
  have nth: "xs ! j = arr ! j" if "j < len" for j using that by (simp add: xs_def)
  have d1: "drop 1 xs = tl xs" by (simp add: drop_Suc)
  have "find_max_loop arr len 1 a0 = Some (foldl (\<lambda>m v. if v > m then v else m) a0 (drop 1 xs))"
    unfolding xs_def using h len by (intro find_max_loop_foldl) simp_all
  then have loop: "find_max_loop arr len 1 a0 = Some m"
    unfolding d1 m_def by (simp add: arr)
  have run: "mathlib_find_max (Ptr arr) len (Ptr r0) = Some (MATHLIB_OK, Ptr m)"
    using loop by (simp add: mathlib_find_max_def arr len)
  have "m = Max (insert a0 (set (tl xs)))" by (simp add: m_def arr foldl_scan_Max)
  also have "insert a0 (set (tl xs)) = set xs" by (subst (2) xs) simp
  finally have mx: "m = Max (set xs)" .
  have ne: "set xs \<noteq> {}" by (subst xs) simp
  have le: "arr ! j \<le> m" if "j < len" for j
  proof -
    have "xs ! j \<in> set xs" using that lxs by simp
    then have "xs ! j \<le> Max (set xs)" by (intro Max_ge) simp_all
    then show ?thesis using mx nth [OF that] by simp
  qed
  have "Max (set xs) \<in> set xs" using ne by (intro Max_in) simp_all
  then have "m \<in> set xs" by (simp add: mx)
  then obtain k where "k < length xs" "xs ! k = m" unfolding in_set_conv_nth by blast
  then have k: "k < len \<and> arr ! k = m" using lxs nth [of k] by simp
  define i where "i = (LEAST k. k < len \<and> arr ! k = m)"
  have i: "i < len \<and> arr ! i = m" unfolding i_def using k by (rule LeastI)
  have first: "arr ! j < m" if "j < i" for j
  proof -
    have "\<not> (j < len \<and> arr ! j = m)" using that unfolding i_def by (rule not_less_Least)
    moreover have "j < len" using that i by simp
    ultimately show ?thesis using le [of j] by simp
  qed
  have c2: "m = foldl (\<lambda>m v. if v > m then v else m) (arr ! 0) (tl (take len arr))"
    by (simp add: m_def xs_def)
  have c3: "m = Max (set (take len arr))" using mx by (simp add: xs_def)
  have c4: "\<forall>j<len. arr ! j \<le> m" using le by blast
  have c7: "\<forall>j<i. arr ! j < m" using first by blast
  show "\<exists>m i. mathlib_find_max (Ptr arr) len (Ptr r0) = Some (MATHLIB_OK, Ptr m)
           \<and> m = foldl (\<lambda>m v. if v > m then v else m) (arr ! 0) (tl (take len arr))
           \<and> m = Max (set (take len arr))
           \<and> (\<forall>j<len. arr ! j \<le> m)
           \<and> i < len \<and> arr ! i = m \<and> (\<forall>j<i. arr ! j < m)"
    apply (rule exI [of _ m])
    apply (rule exI [of _ i])
    apply (intro conjI)
          apply (rule run)
         apply (rule c2)
        apply (rule c3)
       apply (rule c4)
      apply (rule i [THEN conjunct1])
     apply (rule i [THEN conjunct2])
    apply (rule c7)
    done
qed

theorem mathlib_find_max_scan_witness:
  "\<exists>i. mathlib_find_max (Ptr [3, 7, 2, 7, 9]) 4 (Ptr 0) = Some (MATHLIB_OK, Ptr 7)
     \<and> i < 4 \<and> [3, 7, 2, 7, 9 :: int] ! i = 7 \<and> (\<forall>j<i. [3, 7, 2, 7, 9 :: int] ! j < 7)"
proof -
  have h: "(0::nat) < 4 \<and> 4 \<le> length [3, 7, 2, 7, 9 :: int]" by simp
  have t: "take 4 [3, 7, 2, 7, 9 :: int] = [3, 7, 2, 7]" by simp
  have mx: "Max (set (take 4 [3, 7, 2, 7, 9 :: int])) = 7" unfolding t by simp
  from mathlib_find_max_scan [of "[3, 7, 2, 7, 9]" 0 4, THEN conjunct2, THEN mp, OF h]
  obtain m i where r: "mathlib_find_max (Ptr [3, 7, 2, 7, 9]) 4 (Ptr 0) = Some (MATHLIB_OK, Ptr m)"
    and m: "m = Max (set (take 4 [3, 7, 2, 7, 9 :: int]))"
    and i: "i < 4" "[3, 7, 2, 7, 9 :: int] ! i = m" "\<forall>j<i. [3, 7, 2, 7, 9 :: int] ! j < m"
    by blast
  from m mx have m7: "m = 7" by simp
  show ?thesis
    apply (rule exI [of _ i])
    using r i unfolding m7 by simp
qed

section \<open>Verification: squared distance\<close>

text \<open>
  Reduction to 32 bits keeps the residue modulo \<open>2^32\<close>, hence modulo 4; a sum of two
  squares is never 3 modulo 4, so it is never \<open>-1\<close> after the reduction.
\<close>

lemma wrap32_mod4: "wrap32 v mod 4 = v mod 4"
proof -
  have "(4::int) dvd 4294967296" by simp
  then have "((v + 2147483648) mod 4294967296) mod 4 = (v + 2147483648) mod 4"
    by (rule mod_mod_cancel)
  moreover have "wrap32 v mod 4 = (((v + 2147483648) mod 4294967296) mod 4 - 2147483648 mod 4) mod 4"
    unfolding wrap32_def by (simp only: mod_diff_eq)
  ultimately have "wrap32 v mod 4 = ((v + 2147483648) mod 4 - 2147483648 mod 4) mod 4" by simp
  also have "\<dots> = (v + 2147483648 - 2147483648) mod 4" by (simp only: mod_diff_eq)
  finally show ?thesis by simp
qed

lemma wrap32_mod: "wrap32 a mod 4294967296 = a mod 4294967296"
proof -
  have "wrap32 a mod 4294967296 = (a + 2147483648 - 2147483648) mod 4294967296"
    unfolding wrap32_def by (simp only: mod_diff_left_eq)
  then show ?thesis by simp
qed

lemma wrap32_cong: "a mod 4294967296 = b mod 4294967296 \<Longrightarrow> wrap32 a = wrap32 b"
proof -
  assume "a mod 4294967296 = b mod 4294967296"
  then have "(a + 2147483648) mod 4294967296 = (b + 2147483648) mod 4294967296"
    by (rule mod_add_cong) simp
  then show ?thesis by (simp add: wrap32_def)
qed

lemma wrap32_sum_squares:
  "wrap32 (wrap32 (wrap32 dx * wrap32 dx) + wrap32 (wrap32 dy * wrap32 dy))
     = wrap32 (dx * dx + dy * dy)"
proof (rule wrap32_cong)
  have sq: "wrap32 (wrap32 d * wrap32 d) mod 4294967296 = (d * d) mod 4294967296" for d
  proof -
    have "wrap32 (wrap32 d * wrap32 d) mod 4294967296 = (wrap32 d * wrap32 d) mod 4294967296"
      by (rule wrap32_mod)
    also have "\<dots> = (d * d) mod 4294967296"
      by (rule mod_mult_cong) (rule wrap32_mod)+
    finally show ?thesis .
  qed
  show "(wrap32 (wrap32 dx * wrap32 dx) + wrap32 (wrap32 dy * wrap32 dy)) mod 4294967296
      = (dx * dx + dy * dy) mod 4294967296"
    by (rule mod_add_cong) (rule sq)+
qed

lemma square_mod4: "(k * k) mod 4 = 0 \<or> (k * k) mod 4 = (1::int)"
proof -
  have "(k * k) mod 4 = ((k mod 4) * (k mod 4)) mod 4" by (simp add: mod_mult_eq)
  moreover have "k mod 4 = 0 \<or> k mod 4 = 1 \<or> k mod 4 = 2 \<or> k mod 4 = 3" by presburger
  ultimately show ?thesis by auto
qed

lemma sum_squares_wrap_not_minus1:
  "wrap32 (wrap32 (dx * dx) + wrap32 (dy * dy)) \<noteq> - 1"
proof
  assume "wrap32 (wrap32 (dx * dx) + wrap32 (dy * dy)) = - 1"
  then have "wrap32 (wrap32 (dx * dx) + wrap32 (dy * dy)) mod 4 = (- 1) mod 4" by simp
  then have "(wrap32 (dx * dx) + wrap32 (dy * dy)) mod 4 = 3" by (simp add: wrap32_mod4)
  then have "(wrap32 (dx * dx) mod 4 + wrap32 (dy * dy) mod 4) mod 4 = 3" by (simp add: mod_add_eq)
  then have "((dx * dx) mod 4 + (dy * dy) mod 4) mod 4 = 3" by (simp only: wrap32_mod4)
  with square_mod4 [of dx] square_mod4 [of dy] show False by auto
qed

lemma square_le_imp_abs_le:
  fixes d :: int
  assumes "d * d \<le> 2147483647"
  shows "\<bar>d\<bar> \<le> 46340"
proof (rule ccontr)
  assume "\<not> \<bar>d\<bar> \<le> 46340"
  then have "46341 \<le> \<bar>d\<bar>" by simp
  then have "46341 * 46341 \<le> \<bar>d\<bar> * \<bar>d\<bar>" by (intro mult_mono) auto
  then show False using assms by (simp add: abs_mult_self_eq)
qed


text \<open>
  C6, as the specification states it: for every pair of non-null points the result is
  the squared Euclidean distance, which is non-negative. The points \<open>(0, 0)\<close> and
  \<open>(46341, 0)\<close> have the squared distance \<open>2147488281 > INT32_MAX\<close>; the function
  returns \<open>-2147479015\<close>.
\<close>

theorem mathlib_point_distance_squared_overflow:
  "mathlib_point_distance_squared (Ptr \<lparr>point_x = 0, point_y = 0\<rparr>)
       (Ptr \<lparr>point_x = 46341, point_y = 0\<rparr>)
     \<noteq> (46341 - 0) * (46341 - 0) + (0 - 0) * (0 - 0)
   \<and> mathlib_point_distance_squared (Ptr \<lparr>point_x = 0, point_y = 0\<rparr>)
       (Ptr \<lparr>point_x = 46341, point_y = 0\<rparr>) < 0"
  by (simp add: mathlib_point_distance_squared_def wrap32_def)


text \<open>
  C6, amended. The function returns \<open>-1\<close> exactly when one of the two pointers is null.
  For non-null points it returns \<open>dx*dx + dy*dy\<close> reduced to 32 bits; that is the
  squared Euclidean distance, and non-negative, whenever the squared distance is at most
  \<open>INT32_MAX\<close>.
\<close>

theorem mathlib_point_distance_squared_wrapped:
  "(mathlib_point_distance_squared a b = - 1 \<longleftrightarrow> a = NULL \<or> b = NULL)
   \<and> mathlib_point_distance_squared (Ptr pa) (Ptr pb)
       = wrap32 ((point_x pb - point_x pa) * (point_x pb - point_x pa)
               + (point_y pb - point_y pa) * (point_y pb - point_y pa))
   \<and> ((point_x pb - point_x pa) * (point_x pb - point_x pa)
        + (point_y pb - point_y pa) * (point_y pb - point_y pa) \<le> INT32_MAX \<longrightarrow>
       mathlib_point_distance_squared (Ptr pa) (Ptr pb)
         = (point_x pb - point_x pa) * (point_x pb - point_x pa)
           + (point_y pb - point_y pa) * (point_y pb - point_y pa)
       \<and> 0 \<le> mathlib_point_distance_squared (Ptr pa) (Ptr pb))"
proof (intro conjI impI)
  show "mathlib_point_distance_squared a b = - 1 \<longleftrightarrow> a = NULL \<or> b = NULL"
    using sum_squares_wrap_not_minus1
    by (auto simp: mathlib_point_distance_squared_def Let_def split: ptr.splits)
next
  define dx where "dx = point_x pb - point_x pa"
  define dy where "dy = point_y pb - point_y pa"
  have "wrap32 (wrap32 (wrap32 dx * wrap32 dx) + wrap32 (wrap32 dy * wrap32 dy))
      = wrap32 (dx * dx + dy * dy)"
    by (rule wrap32_sum_squares)
  then show "mathlib_point_distance_squared (Ptr pa) (Ptr pb)
       = wrap32 ((point_x pb - point_x pa) * (point_x pb - point_x pa)
               + (point_y pb - point_y pa) * (point_y pb - point_y pa))"
    by (simp add: mathlib_point_distance_squared_def Let_def dx_def dy_def)
next
  define dx where "dx = point_x pb - point_x pa"
  define dy where "dy = point_y pb - point_y pa"
  assume "(point_x pb - point_x pa) * (point_x pb - point_x pa)
        + (point_y pb - point_y pa) * (point_y pb - point_y pa) \<le> INT32_MAX"
  then have le: "dx * dx + dy * dy \<le> 2147483647" by (simp add: dx_def dy_def)
  have sq: "0 \<le> dx * dx" "0 \<le> dy * dy" by simp_all
  with le have up: "dx * dx \<le> 2147483647" "dy * dy \<le> 2147483647" by linarith+
  from sq have lo: "- 2147483648 \<le> dx * dx" "- 2147483648 \<le> dy * dy"
    "- 2147483648 \<le> dx * dx + dy * dy" by linarith+
  from up have "\<bar>dx\<bar> \<le> 46340" "\<bar>dy\<bar> \<le> 46340" by (auto intro: square_le_imp_abs_le)
  then have "wrap32 dx = dx" "wrap32 dy = dy" by (auto intro!: wrap32_id simp: is_int32_def)
  moreover have "wrap32 (dx * dx) = dx * dx" "wrap32 (dy * dy) = dy * dy"
    by (rule wrap32_id, simp add: is_int32_def lo up)+
  moreover have "wrap32 (dx * dx + dy * dy) = dx * dx + dy * dy"
    by (rule wrap32_id) (simp add: is_int32_def lo le)
  ultimately have r: "mathlib_point_distance_squared (Ptr pa) (Ptr pb) = dx * dx + dy * dy"
    by (simp add: mathlib_point_distance_squared_def Let_def dx_def dy_def)
  then show "mathlib_point_distance_squared (Ptr pa) (Ptr pb)
         = (point_x pb - point_x pa) * (point_x pb - point_x pa)
           + (point_y pb - point_y pa) * (point_y pb - point_y pa)"
    by (simp add: dx_def dy_def)
  show "0 \<le> mathlib_point_distance_squared (Ptr pa) (Ptr pb)"
    unfolding r using sq by linarith
qed

theorem mathlib_point_distance_squared_wrapped_witness:
  "mathlib_point_distance_squared (Ptr \<lparr>point_x = 1, point_y = - 2\<rparr>)
     (Ptr \<lparr>point_x = 4, point_y = 2\<rparr>) = 25"
  using mathlib_point_distance_squared_wrapped
    [of "Ptr \<lparr>point_x = 1, point_y = - 2\<rparr>" "Ptr \<lparr>point_x = 4, point_y = 2\<rparr>"
        "\<lparr>point_x = 1, point_y = - 2\<rparr>" "\<lparr>point_x = 4, point_y = 2\<rparr>"]
  by simp


section \<open>Verification: rectangle area\<close>

text \<open>
  The absolute value the code takes, \<open>if (v < 0) v = -v\<close> on 32 bits, gives the same for
  a difference and for its negation, and it is the absolute value unless the difference
  is outside \<open>-INT32_MAX .. INT32_MAX\<close>.
\<close>

lemma wrap32_range: "- 2147483648 \<le> wrap32 v" "wrap32 v \<le> 2147483647"
  by (simp_all add: wrap32_def)

lemma abs_wrap_neg:
  "(if wrap32 (- v) < 0 then wrap32 (- wrap32 (- v)) else wrap32 (- v))
     = (if wrap32 v < 0 then wrap32 (- wrap32 v) else wrap32 v)"
proof -
  define w where "w = wrap32 v"
  have "(- v) mod 4294967296 = (- w) mod 4294967296"
    unfolding w_def by (rule mod_minus_cong) (simp add: wrap32_mod)
  then have n: "wrap32 (- v) = wrap32 (- w)" by (rule wrap32_cong)
  have r: "- 2147483648 \<le> w" "w \<le> 2147483647" unfolding w_def by (rule wrap32_range)+
  show ?thesis
  proof (cases "w = - 2147483648")
    case True
    then show ?thesis unfolding n w_def [symmetric] by (simp add: wrap32_def)
  next
    case False
    with r have "is_int32 (- w)" "is_int32 w" by (simp_all add: is_int32_def)
    then have "wrap32 (- w) = - w" "wrap32 w = w" by (simp_all add: wrap32_id)
    then show ?thesis unfolding n w_def [symmetric] by (auto simp: wrap32_def)
  qed
qed

lemma abs_wrap_exact:
  assumes "\<bar>v\<bar> \<le> 2147483647"
  shows "(if wrap32 v < 0 then wrap32 (- wrap32 v) else wrap32 v) = \<bar>v\<bar>"
proof -
  from assms have "is_int32 v" "is_int32 (- v)" by (simp_all add: is_int32_def abs_le_iff)
  then have "wrap32 v = v" "wrap32 (- v) = - v" by (simp_all add: wrap32_id)
  then show ?thesis by simp
qed


text \<open>
  C7, as the specification states it: for every non-null rectangle the result is
  absolute width times absolute height. The rectangle with corners \<open>(0, 0)\<close> and
  \<open>(65535, 65537)\<close> has the area \<open>4294967295 = 2^32 - 1\<close>; the function returns \<open>-1\<close>, the
  value it also returns for a null pointer.
\<close>

theorem mathlib_rectangle_area_overflow:
  "mathlib_rectangle_area (Ptr \<lparr>top_left = \<lparr>point_x = 0, point_y = 0\<rparr>,
       bottom_right = \<lparr>point_x = 65535, point_y = 65537\<rparr>\<rparr>) = - 1
   \<and> mathlib_rectangle_area (Ptr \<lparr>top_left = \<lparr>point_x = 0, point_y = 0\<rparr>,
       bottom_right = \<lparr>point_x = 65535, point_y = 65537\<rparr>\<rparr>)
     \<noteq> \<bar>65535 - 0\<bar> * \<bar>65537 - 0\<bar>"
  by (simp add: mathlib_rectangle_area_def wrap32_def)


text \<open>
  C7, amended. For a null pointer the function returns \<open>-1\<close>. For every non-null
  rectangle, swapping the two corners gives the same result. The result is absolute
  width times absolute height whenever that product is at most \<open>INT32_MAX\<close>.
\<close>

theorem mathlib_rectangle_area_wrapped:
  "mathlib_rectangle_area NULL = - 1
   \<and> mathlib_rectangle_area (Ptr \<lparr>top_left = p, bottom_right = q\<rparr>)
       = mathlib_rectangle_area (Ptr \<lparr>top_left = q, bottom_right = p\<rparr>)
   \<and> (\<bar>point_x q - point_x p\<bar> * \<bar>point_y q - point_y p\<bar> \<le> INT32_MAX \<longrightarrow>
        mathlib_rectangle_area (Ptr \<lparr>top_left = p, bottom_right = q\<rparr>)
          = \<bar>point_x q - point_x p\<bar> * \<bar>point_y q - point_y p\<bar>)"
proof (intro conjI impI)
  show "mathlib_rectangle_area NULL = - 1" by (simp add: mathlib_rectangle_area_def)
next
  have "point_x p - point_x q = - (point_x q - point_x p)"
    "point_y p - point_y q = - (point_y q - point_y p)" by simp_all
  then show "mathlib_rectangle_area (Ptr \<lparr>top_left = p, bottom_right = q\<rparr>)
       = mathlib_rectangle_area (Ptr \<lparr>top_left = q, bottom_right = p\<rparr>)"
    by (simp only: mathlib_rectangle_area_def Let_def ptr.case Rectangle.simps abs_wrap_neg)
next
  define w where "w = point_x q - point_x p"
  define h where "h = point_y q - point_y p"
  assume "\<bar>point_x q - point_x p\<bar> * \<bar>point_y q - point_y p\<bar> \<le> INT32_MAX"
  then have le: "\<bar>w\<bar> * \<bar>h\<bar> \<le> 2147483647" by (simp add: w_def h_def)
  have area: "mathlib_rectangle_area (Ptr \<lparr>top_left = p, bottom_right = q\<rparr>)
      = wrap32 ((if wrap32 w < 0 then wrap32 (- wrap32 w) else wrap32 w)
              * (if wrap32 h < 0 then wrap32 (- wrap32 h) else wrap32 h))"
    by (simp add: mathlib_rectangle_area_def Let_def w_def h_def)
  have "mathlib_rectangle_area (Ptr \<lparr>top_left = p, bottom_right = q\<rparr>) = \<bar>w\<bar> * \<bar>h\<bar>"
  proof (cases "w = 0 \<or> h = 0")
    case True
    then show ?thesis unfolding area by (auto simp: wrap32_def)
  next
    case False
    then have one: "1 \<le> \<bar>w\<bar>" "1 \<le> \<bar>h\<bar>" by (auto simp: abs_if)
    have "\<bar>w\<bar> * 1 \<le> \<bar>w\<bar> * \<bar>h\<bar>" using one(2) by (intro mult_left_mono) simp_all
    moreover have "1 * \<bar>h\<bar> \<le> \<bar>w\<bar> * \<bar>h\<bar>" using one(1) by (intro mult_right_mono) simp_all
    ultimately have "\<bar>w\<bar> \<le> 2147483647" "\<bar>h\<bar> \<le> 2147483647" using le by simp_all
    then have "(if wrap32 w < 0 then wrap32 (- wrap32 w) else wrap32 w) = \<bar>w\<bar>"
      "(if wrap32 h < 0 then wrap32 (- wrap32 h) else wrap32 h) = \<bar>h\<bar>"
      by (simp_all only: abs_wrap_exact)
    moreover have "0 \<le> \<bar>w\<bar> * \<bar>h\<bar>" by simp
    then have "is_int32 (\<bar>w\<bar> * \<bar>h\<bar>)" using le unfolding is_int32_def by linarith
    then have "wrap32 (\<bar>w\<bar> * \<bar>h\<bar>) = \<bar>w\<bar> * \<bar>h\<bar>" by (rule wrap32_id)
    ultimately show ?thesis unfolding area by simp
  qed
  then show "mathlib_rectangle_area (Ptr \<lparr>top_left = p, bottom_right = q\<rparr>)
          = \<bar>point_x q - point_x p\<bar> * \<bar>point_y q - point_y p\<bar>"
    by (simp add: w_def h_def)
qed

theorem mathlib_rectangle_area_wrapped_witness:
  "mathlib_rectangle_area (Ptr \<lparr>top_left = \<lparr>point_x = 5, point_y = 1\<rparr>,
       bottom_right = \<lparr>point_x = 2, point_y = 8\<rparr>\<rparr>) = 21
   \<and> mathlib_rectangle_area (Ptr \<lparr>top_left = \<lparr>point_x = 2, point_y = 8\<rparr>,
       bottom_right = \<lparr>point_x = 5, point_y = 1\<rparr>\<rparr>) = 21"
  using mathlib_rectangle_area_wrapped
    [of "\<lparr>point_x = 5, point_y = 1\<rparr>" "\<lparr>point_x = 2, point_y = 8\<rparr>"]
  by simp


section \<open>Verification: parsing an integer\<close>

text \<open>
  The characters \<open>strtol\<close> skips or converts are never NUL, so the conversion stays
  inside the C string; what \<open>mathlib_parse_int\<close> tests after the call (\<open>errno\<close>,
  \<open>endptr == str\<close>, \<open>*endptr\<close>, the 32-bit range) is related here to the shape of the whole
  text.
\<close>

lemma isspace_not: "isspace c \<Longrightarrow> c \<noteq> CHR 0x00 \<and> c \<noteq> CHR ''-'' \<and> c \<noteq> CHR ''+'' \<and> \<not> isdigit c"
  by (auto simp: isspace_def isdigit_def)

lemma isdigit_not: "isdigit c \<Longrightarrow> c \<noteq> CHR 0x00 \<and> c \<noteq> CHR ''-'' \<and> c \<noteq> CHR ''+'' \<and> \<not> isspace c"
  by (auto simp: isspace_def isdigit_def)

lemma c_str_Nil: "c_str [] = []"
  by (simp add: c_str_def)

lemma c_str_Cons: "c_str (c # cs) = (if c = CHR 0x00 then [] else c # c_str cs)"
  by (simp add: c_str_def)

lemma c_str_append: "CHR 0x00 \<notin> set xs \<Longrightarrow> c_str (xs @ ys) = xs @ c_str ys"
  unfolding c_str_def by (rule takeWhile_append2) auto

lemma c_str_eq_Nil: "c_str xs = [] \<longleftrightarrow> deref xs 0 = CHR 0x00"
  by (cases xs) (simp_all add: c_str_def deref_def)

lemma deref_append: "deref (xs @ ys) (length xs + k) = deref ys k"
  by (simp add: deref_def nth_append)

lemma digits_run:
  "(c_str cs \<noteq> [] \<and> list_all isdigit (c_str cs))
     \<longleftrightarrow> (takeWhile isdigit cs \<noteq> [] \<and> deref cs (length (takeWhile isdigit cs)) = CHR 0x00)"
  "takeWhile isdigit cs \<noteq> [] \<and> deref cs (length (takeWhile isdigit cs)) = CHR 0x00
     \<Longrightarrow> c_str cs = takeWhile isdigit cs"
proof -
  define ds where "ds = takeWhile isdigit cs"
  define rest where "rest = dropWhile isdigit cs"
  have cs: "cs = ds @ rest" by (simp add: ds_def rest_def)
  have dig: "list_all isdigit ds" by (simp add: ds_def list_all_iff) (meson set_takeWhileD)
  then have nonul: "CHR 0x00 \<notin> set ds" using isdigit_not by (auto simp: list_all_iff)
  have str: "c_str cs = ds @ c_str rest" unfolding cs using nonul by (rule c_str_append)
  have der: "deref cs (length ds) = deref rest 0"
    using deref_append [of ds rest 0] by (simp add: cs)
  have hdrest: "rest \<noteq> [] \<Longrightarrow> \<not> isdigit (hd rest)"
    unfolding rest_def by (rule hd_dropWhile)
  have tail: "list_all isdigit (c_str rest) \<longleftrightarrow> c_str rest = []"
  proof (cases rest)
    case Nil
    then show ?thesis by (simp add: c_str_Nil)
  next
    case (Cons r rs)
    with hdrest have "\<not> isdigit r" by simp
    then show ?thesis by (simp add: Cons c_str_Cons)
  qed
  have "(c_str cs \<noteq> [] \<and> list_all isdigit (c_str cs)) \<longleftrightarrow> (ds \<noteq> [] \<and> c_str rest = [])"
    unfolding str using dig tail by auto
  then show "(c_str cs \<noteq> [] \<and> list_all isdigit (c_str cs))
     \<longleftrightarrow> (takeWhile isdigit cs \<noteq> [] \<and> deref cs (length (takeWhile isdigit cs)) = CHR 0x00)"
    unfolding ds_def [symmetric] der c_str_eq_Nil .
  show "c_str cs = takeWhile isdigit cs"
    if "takeWhile isdigit cs \<noteq> [] \<and> deref cs (length (takeWhile isdigit cs)) = CHR 0x00"
    using that unfolding ds_def [symmetric] der str by (simp add: c_str_eq_Nil)
qed

lemma parse_normal_form:
  fixes mem :: string
  defines "ws \<equiv> takeWhile isspace mem"
    and "r1 \<equiv> dropWhile isspace mem"
  defines "nsign \<equiv> (if r1 \<noteq> [] \<and> (hd r1 = CHR ''-'' \<or> hd r1 = CHR ''+'') then 1 else 0 :: nat)"
    and "neg \<equiv> (r1 \<noteq> [] \<and> hd r1 = CHR ''-'')"
  defines "cs \<equiv> drop nsign r1"
  shows "base10_integer (c_str mem)
           = (if c_str cs \<noteq> [] \<and> list_all isdigit (c_str cs)
              then Some (if neg then - decimal_value (c_str cs) else decimal_value (c_str cs))
              else None)"
    and "deref mem (length ws + nsign + k) = deref cs k"
proof -
  have mem: "mem = ws @ r1" by (simp add: ws_def r1_def)
  have sp: "\<forall>c\<in>set ws. isspace c" unfolding ws_def by (meson set_takeWhileD)
  then have "CHR 0x00 \<notin> set ws" using isspace_not by blast
  then have str: "c_str mem = ws @ c_str r1" unfolding mem by (rule c_str_append)
  have hd1: "r1 \<noteq> [] \<Longrightarrow> \<not> isspace (hd r1)" unfolding r1_def by (rule hd_dropWhile)
  have "dropWhile isspace (ws @ c_str r1) = dropWhile isspace (c_str r1)"
    using sp by (intro dropWhile_append2) blast
  also have "\<dots> = c_str r1"
  proof (cases r1)
    case Nil
    then show ?thesis by (simp add: c_str_Nil)
  next
    case (Cons c cs')
    with hd1 have "\<not> isspace c" by simp
    then show ?thesis by (simp add: Cons c_str_Cons)
  qed
  finally have body: "dropWhile isspace (c_str mem) = c_str r1" by (simp add: str)
  show "base10_integer (c_str mem)
           = (if c_str cs \<noteq> [] \<and> list_all isdigit (c_str cs)
              then Some (if neg then - decimal_value (c_str cs) else decimal_value (c_str cs))
              else None)"
  proof (cases r1)
    case Nil
    then show ?thesis
      by (simp add: base10_integer_def Let_def body cs_def c_str_Nil)
  next
    case (Cons c cs')
    show ?thesis
    proof (cases "c = CHR ''-'' \<or> c = CHR ''+''")
      case True
      then have "nsign = 1" "cs = cs'" "c_str r1 = c # c_str cs'"
        by (auto simp: nsign_def cs_def Cons c_str_Cons)
      then show ?thesis using True
        by (auto simp: base10_integer_def Let_def body neg_def Cons)
    next
      case False
      then have n: "nsign = 0" "cs = r1" "\<not> neg" by (auto simp: nsign_def cs_def Cons neg_def)
      show ?thesis
      proof (cases "c = CHR 0x00")
        case True
        then show ?thesis by (simp add: base10_integer_def Let_def body n Cons c_str_Cons)
      next
        case nz: False
        then have "c_str r1 = c # c_str cs'" by (simp add: Cons c_str_Cons)
        then show ?thesis using False by (simp add: base10_integer_def Let_def body n)
      qed
    qed
  qed
  have "nsign \<le> length r1" by (cases r1) (simp_all add: nsign_def)
  then have len: "length (ws @ take nsign r1) = length ws + nsign" by simp
  have "mem = (ws @ take nsign r1) @ cs" by (simp add: mem cs_def)
  then have "deref mem (length (ws @ take nsign r1) + k) = deref cs k"
    by (metis deref_append)
  then show "deref mem (length ws + nsign + k) = deref cs k" by (simp only: len)
qed

lemma strtol_spec:
  assumes "strtol mem = (val, endptr, errno)"
  shows "(case base10_integer (c_str mem) of
            None \<Rightarrow> endptr = 0 \<or> deref mem endptr \<noteq> CHR 0x00
          | Some v \<Rightarrow> endptr \<noteq> 0 \<and> deref mem endptr = CHR 0x00
              \<and> (if v > LONG_MAX then val = LONG_MAX \<and> errno = ERANGE
                  else if v < LONG_MIN then val = LONG_MIN \<and> errno = ERANGE
                  else val = v \<and> errno = 0))"
proof -
  define ws where "ws = takeWhile isspace mem"
  define r1 where "r1 = dropWhile isspace mem"
  define nsign :: nat where
    "nsign = (if r1 \<noteq> [] \<and> (hd r1 = CHR ''-'' \<or> hd r1 = CHR ''+'') then 1 else 0)"
  define neg where "neg = (r1 \<noteq> [] \<and> hd r1 = CHR ''-'')"
  define cs where "cs = drop nsign r1"
  define ds where "ds = takeWhile isdigit cs"
  define v where "v = (if neg then - decimal_value ds else decimal_value ds)"
  have st: "strtol mem =
      (if ds = [] then (0, 0, 0)
       else if v > LONG_MAX then (LONG_MAX, length ws + nsign + length ds, ERANGE)
       else if v < LONG_MIN then (LONG_MIN, length ws + nsign + length ds, ERANGE)
       else (v, length ws + nsign + length ds, 0))"
    unfolding strtol_def Let_def ws_def r1_def nsign_def neg_def cs_def ds_def v_def
    by (rule refl)
  have b10: "base10_integer (c_str mem)
           = (if c_str cs \<noteq> [] \<and> list_all isdigit (c_str cs)
              then Some (if neg then - decimal_value (c_str cs) else decimal_value (c_str cs))
              else None)"
    unfolding cs_def nsign_def neg_def r1_def by (rule parse_normal_form(1))
  have der: "deref mem (length ws + nsign + length ds) = deref cs (length ds)"
    unfolding cs_def nsign_def r1_def ws_def by (rule parse_normal_form(2))
  have iff: "(c_str cs \<noteq> [] \<and> list_all isdigit (c_str cs))
      \<longleftrightarrow> (ds \<noteq> [] \<and> deref cs (length ds) = CHR 0x00)"
    unfolding ds_def by (rule digits_run(1))
  show ?thesis
  proof (cases "ds \<noteq> [] \<and> deref cs (length ds) = CHR 0x00")
    case True
    then have "c_str cs = ds" unfolding ds_def by (rule digits_run(2))
    with True iff have b: "base10_integer (c_str mem) = Some v" by (simp add: b10 v_def)
    from True have "0 < length ds" by simp
    then have e: "length ws + nsign + length ds \<noteq> 0" by simp
    show ?thesis using assms True e der unfolding b st
      by (auto split: if_splits)
  next
    case False
    with iff have b: "base10_integer (c_str mem) = None" by (simp add: b10)
    show ?thesis using assms False der unfolding b st
      by (auto split: if_splits)
  qed
qed


lemma mathlib_parse_int_eq:
  "mathlib_parse_int (Ptr mem) (Ptr r0) =
     (case base10_integer (c_str mem) of
        None \<Rightarrow> (MATHLIB_ERR_RANGE, Ptr r0)
      | Some v \<Rightarrow> if is_int32 v then (MATHLIB_OK, Ptr v) else (MATHLIB_ERR_RANGE, Ptr r0))"
proof -
  obtain val endptr errno where st: "strtol mem = (val, endptr, errno)"
    by (cases "strtol mem") auto
  note spec = strtol_spec [OF st]
  show ?thesis
  proof (cases "base10_integer (c_str mem)")
    case None
    with spec show ?thesis by (auto simp: mathlib_parse_int_def st)
  next
    case (Some v)
    with spec have e: "endptr \<noteq> 0" "deref mem endptr = CHR 0x00"
      and r: "if v > LONG_MAX then val = LONG_MAX \<and> errno = ERANGE
              else if v < LONG_MIN then val = LONG_MIN \<and> errno = ERANGE
              else val = v \<and> errno = 0"
      by simp_all
    show ?thesis
    proof (cases "is_int32 v")
      case True
      then have "\<not> v > LONG_MAX" "\<not> v < LONG_MIN" by (simp_all add: is_int32_def)
      with r have "val = v" "errno = 0" by simp_all
      with True e show ?thesis
        by (simp add: mathlib_parse_int_def st Some wrap32_id) (simp add: is_int32_def)
    next
      case False
      have "errno \<noteq> 0 \<or> val < INT32_MIN \<or> val > INT32_MAX"
        using r False by (auto simp: is_int32_def split: if_splits)
      with False e show ?thesis
        by (auto simp: mathlib_parse_int_def st Some)
    qed
  qed
qed

lemma decimal_value_nonneg: "list_all isdigit ds \<Longrightarrow> 0 \<le> decimal_value ds"
proof -
  have "0 \<le> acc \<Longrightarrow> list_all isdigit ds
      \<Longrightarrow> 0 \<le> foldl (\<lambda>acc c. 10 * acc + digit_value c) acc ds" for acc
  proof (induction ds arbitrary: acc)
    case Nil
    then show ?case by simp
  next
    case (Cons d ds)
    then have "0 \<le> digit_value d" by (simp add: isdigit_def digit_value_def)
    with Cons.prems have "0 \<le> 10 * acc + digit_value d" by simp
    with Cons show ?case by simp
  qed
  then show "list_all isdigit ds \<Longrightarrow> 0 \<le> decimal_value ds"
    unfolding decimal_value_def by simp
qed

lemma base10_integer_digits:
  assumes "list_all isspace ws" "ds \<noteq> []" "list_all isdigit ds"
  shows "base10_integer (ws @ ds) = Some (decimal_value ds)"
    and "base10_integer (ws @ CHR ''+'' # ds) = Some (decimal_value ds)"
    and "\<not> isdigit c \<Longrightarrow> base10_integer (ws @ ds @ c # rest) = None"
proof -
  from assms(2) obtain d ds' where ds: "ds = d # ds'" by (cases ds) auto
  with assms(3) have d: "isdigit d" by simp
  then have nd: "\<not> isspace d" "d \<noteq> CHR ''-''" "d \<noteq> CHR ''+''"
    using isdigit_not by blast+
  have sp: "\<And>x. x \<in> set ws \<Longrightarrow> isspace x" using assms(1) by (simp add: list_all_iff)
  have "dropWhile isspace (ws @ ds) = dropWhile isspace ds" using sp by (rule dropWhile_append2)
  then have b1: "dropWhile isspace (ws @ ds) = ds" using nd by (simp add: ds)
  show "base10_integer (ws @ ds) = Some (decimal_value ds)"
    using assms(3) nd by (simp add: base10_integer_def Let_def b1) (simp add: ds)
  have "dropWhile isspace (ws @ CHR ''+'' # ds) = dropWhile isspace (CHR ''+'' # ds)"
    using sp by (rule dropWhile_append2)
  then have b2: "dropWhile isspace (ws @ CHR ''+'' # ds) = CHR ''+'' # ds"
    by (simp add: isspace_def)
  show "base10_integer (ws @ CHR ''+'' # ds) = Some (decimal_value ds)"
    using assms(2,3) by (simp add: base10_integer_def Let_def b2)
  assume c: "\<not> isdigit c"
  have "dropWhile isspace (ws @ ds @ c # rest) = dropWhile isspace (ds @ c # rest)"
    using sp by (rule dropWhile_append2)
  then have b3: "dropWhile isspace (ws @ ds @ c # rest) = d # ds' @ c # rest"
    using nd by (simp add: ds)
  show "base10_integer (ws @ ds @ c # rest) = None"
    using c nd by (simp add: base10_integer_def Let_def b3)
qed

lemma c_str_no_nul: "CHR 0x00 \<notin> set xs \<Longrightarrow> c_str xs = xs"
  using c_str_append [of xs "[]"] by (simp add: c_str_Nil)


text \<open>
  C4. For non-null arguments \<open>mathlib_parse_int\<close> returns ERR_RANGE, leaving the output
  as it was, exactly when the text is not a fully consumed base-10 integer (white space,
  an optional sign, one or more digits, nothing else) whose value is in the 32-bit signed
  range; otherwise it returns OK and writes the value. \<open>"42"\<close> gives OK with 42; \<open>"42x"\<close>
  (trailing character), \<open>""\<close> (empty), \<open>"2147483648"\<close>, \<open>"-2147483649"\<close> and a number beyond
  \<open>long\<close> (out of range) give ERR_RANGE.
\<close>

theorem mathlib_parse_int_base10:
  "mathlib_parse_int (Ptr mem) (Ptr r0) =
     (case base10_integer (c_str mem) of
        None \<Rightarrow> (MATHLIB_ERR_RANGE, Ptr r0)
      | Some v \<Rightarrow> if is_int32 v then (MATHLIB_OK, Ptr v) else (MATHLIB_ERR_RANGE, Ptr r0))
   \<and> (fst (mathlib_parse_int (Ptr mem) (Ptr r0)) = MATHLIB_ERR_RANGE
        \<longleftrightarrow> \<not> (\<exists>v. base10_integer (c_str mem) = Some v \<and> is_int32 v))
   \<and> mathlib_parse_int (Ptr ''42'') (Ptr r0) = (MATHLIB_OK, Ptr 42)
   \<and> mathlib_parse_int (Ptr ''42x'') (Ptr r0) = (MATHLIB_ERR_RANGE, Ptr r0)
   \<and> mathlib_parse_int (Ptr '''') (Ptr r0) = (MATHLIB_ERR_RANGE, Ptr r0)
   \<and> mathlib_parse_int (Ptr ''2147483648'') (Ptr r0) = (MATHLIB_ERR_RANGE, Ptr r0)
   \<and> mathlib_parse_int (Ptr ''-2147483649'') (Ptr r0) = (MATHLIB_ERR_RANGE, Ptr r0)
   \<and> mathlib_parse_int (Ptr ''99999999999999999999'') (Ptr r0) = (MATHLIB_ERR_RANGE, Ptr r0)"
proof (intro conjI)
  show eq: "mathlib_parse_int (Ptr mem) (Ptr r0) =
     (case base10_integer (c_str mem) of
        None \<Rightarrow> (MATHLIB_ERR_RANGE, Ptr r0)
      | Some v \<Rightarrow> if is_int32 v then (MATHLIB_OK, Ptr v) else (MATHLIB_ERR_RANGE, Ptr r0))"
    by (rule mathlib_parse_int_eq)
  show "fst (mathlib_parse_int (Ptr mem) (Ptr r0)) = MATHLIB_ERR_RANGE
        \<longleftrightarrow> \<not> (\<exists>v. base10_integer (c_str mem) = Some v \<and> is_int32 v)"
    unfolding eq by (cases "base10_integer (c_str mem)") simp_all
  have "base10_integer (c_str ''42'') = Some 42" by code_simp
  then show "mathlib_parse_int (Ptr ''42'') (Ptr r0) = (MATHLIB_OK, Ptr 42)"
    by (simp add: mathlib_parse_int_eq is_int32_def)
  have "base10_integer (c_str ''42x'') = None" by code_simp
  then show "mathlib_parse_int (Ptr ''42x'') (Ptr r0) = (MATHLIB_ERR_RANGE, Ptr r0)"
    by (simp add: mathlib_parse_int_eq)
  have "base10_integer (c_str '''') = None" by code_simp
  then show "mathlib_parse_int (Ptr '''') (Ptr r0) = (MATHLIB_ERR_RANGE, Ptr r0)"
    by (simp add: mathlib_parse_int_eq)
  have "base10_integer (c_str ''2147483648'') = Some 2147483648" by code_simp
  then show "mathlib_parse_int (Ptr ''2147483648'') (Ptr r0) = (MATHLIB_ERR_RANGE, Ptr r0)"
    by (simp add: mathlib_parse_int_eq is_int32_def)
  have "base10_integer (c_str ''-2147483649'') = Some (- 2147483649)" by code_simp
  then show "mathlib_parse_int (Ptr ''-2147483649'') (Ptr r0) = (MATHLIB_ERR_RANGE, Ptr r0)"
    by (simp add: mathlib_parse_int_eq is_int32_def)
  have "base10_integer (c_str ''99999999999999999999'') = Some 99999999999999999999"
    by code_simp
  then show "mathlib_parse_int (Ptr ''99999999999999999999'') (Ptr r0)
      = (MATHLIB_ERR_RANGE, Ptr r0)"
    by (simp add: mathlib_parse_int_eq is_int32_def)
qed

theorem mathlib_parse_int_base10_witness:
  "mathlib_parse_int (Ptr ''-17'') (Ptr 5) = (MATHLIB_OK, Ptr (- 17))
   \<and> fst (mathlib_parse_int (Ptr ''-17'') (Ptr 5)) \<noteq> MATHLIB_ERR_RANGE"
proof -
  have b: "base10_integer (c_str ''-17'') = Some (- 17)" by code_simp
  show ?thesis
    using mathlib_parse_int_base10 [of "''-17''" 5] by (simp add: b is_int32_def)
qed


text \<open>
  C9. \<open>mathlib_parse_int\<close> accepts more than a bare digit string: leading white space
  and an explicit \<open>+\<close> before the digits are accepted with the numeric value (\<open>" 42"\<close> and
  \<open>"+42"\<close> give OK with 42, and so does any run of white space, with or without \<open>+\<close>,
  before digits whose value is at most \<open>INT32_MAX\<close>), while a character other than the
  terminator after the number is rejected (\<open>"42 "\<close> gives ERR_RANGE).
\<close>

theorem mathlib_parse_int_accepts_space_and_plus:
  "mathlib_parse_int (Ptr '' 42'') (Ptr r0) = (MATHLIB_OK, Ptr 42)
   \<and> mathlib_parse_int (Ptr ''+42'') (Ptr r0) = (MATHLIB_OK, Ptr 42)
   \<and> mathlib_parse_int (Ptr ''42 '') (Ptr r0) = (MATHLIB_ERR_RANGE, Ptr r0)
   \<and> (list_all isspace ws \<and> ds \<noteq> [] \<and> list_all isdigit ds \<and> decimal_value ds \<le> INT32_MAX
        \<longrightarrow> mathlib_parse_int (Ptr (ws @ ds)) (Ptr r0) = (MATHLIB_OK, Ptr (decimal_value ds))
          \<and> mathlib_parse_int (Ptr (ws @ CHR ''+'' # ds)) (Ptr r0)
              = (MATHLIB_OK, Ptr (decimal_value ds))
          \<and> (\<forall>c rest. c \<noteq> CHR 0x00 \<and> \<not> isdigit c \<longrightarrow>
                mathlib_parse_int (Ptr (ws @ ds @ c # rest)) (Ptr r0)
                  = (MATHLIB_ERR_RANGE, Ptr r0)))"
proof (intro conjI impI allI)
  have "base10_integer (c_str '' 42'') = Some 42" by code_simp
  then show "mathlib_parse_int (Ptr '' 42'') (Ptr r0) = (MATHLIB_OK, Ptr 42)"
    by (simp add: mathlib_parse_int_eq is_int32_def)
  have "base10_integer (c_str ''+42'') = Some 42" by code_simp
  then show "mathlib_parse_int (Ptr ''+42'') (Ptr r0) = (MATHLIB_OK, Ptr 42)"
    by (simp add: mathlib_parse_int_eq is_int32_def)
  have "base10_integer (c_str ''42 '') = None" by code_simp
  then show "mathlib_parse_int (Ptr ''42 '') (Ptr r0) = (MATHLIB_ERR_RANGE, Ptr r0)"
    by (simp add: mathlib_parse_int_eq)
next
  assume h: "list_all isspace ws \<and> ds \<noteq> [] \<and> list_all isdigit ds
      \<and> decimal_value ds \<le> INT32_MAX"
  then have ws: "list_all isspace ws" and ne: "ds \<noteq> []" and dg: "list_all isdigit ds" by simp_all
  have n1: "CHR 0x00 \<notin> set ws" using ws isspace_not by (auto simp: list_all_iff)
  have n2: "CHR 0x00 \<notin> set ds" using dg isdigit_not by (auto simp: list_all_iff)
  have rng: "is_int32 (decimal_value ds)"
    using decimal_value_nonneg [OF dg] h by (simp add: is_int32_def)
  have "c_str (ws @ ds) = ws @ ds" using n1 n2 by (intro c_str_no_nul) simp
  then show "mathlib_parse_int (Ptr (ws @ ds)) (Ptr r0) = (MATHLIB_OK, Ptr (decimal_value ds))"
    using rng by (simp add: mathlib_parse_int_eq base10_integer_digits(1) [OF ws ne dg])
  have "c_str (ws @ CHR ''+'' # ds) = ws @ CHR ''+'' # ds" using n1 n2 by (intro c_str_no_nul) simp
  then show "mathlib_parse_int (Ptr (ws @ CHR ''+'' # ds)) (Ptr r0)
      = (MATHLIB_OK, Ptr (decimal_value ds))"
    using rng by (simp add: mathlib_parse_int_eq base10_integer_digits(2) [OF ws ne dg])
  fix c rest
  assume c: "c \<noteq> CHR 0x00 \<and> \<not> isdigit c"
  have "c_str ((ws @ ds) @ c # rest) = (ws @ ds) @ c_str (c # rest)"
    using n1 n2 by (intro c_str_append) simp
  then have "c_str (ws @ ds @ c # rest) = ws @ ds @ c # c_str rest"
    using c by (simp add: c_str_Cons)
  moreover have "base10_integer (ws @ ds @ c # c_str rest) = None"
    using c by (intro base10_integer_digits(3) [OF ws ne dg]) simp
  ultimately show "mathlib_parse_int (Ptr (ws @ ds @ c # rest)) (Ptr r0)
      = (MATHLIB_ERR_RANGE, Ptr r0)"
    by (simp add: mathlib_parse_int_eq)
qed

theorem mathlib_parse_int_accepts_space_and_plus_witness:
  "mathlib_parse_int (Ptr (''  '' @ ''007'')) (Ptr 5) = (MATHLIB_OK, Ptr 7)
   \<and> mathlib_parse_int (Ptr (''  '' @ CHR ''+'' # ''007'')) (Ptr 5) = (MATHLIB_OK, Ptr 7)
   \<and> mathlib_parse_int (Ptr (''  '' @ ''007'' @ CHR ''x'' # ''y'')) (Ptr 5)
       = (MATHLIB_ERR_RANGE, Ptr 5)"
proof -
  have h: "list_all isspace ''  '' \<and> ''007'' \<noteq> [] \<and> list_all isdigit ''007''
      \<and> decimal_value ''007'' \<le> INT32_MAX"
    by (simp add: isspace_def isdigit_def decimal_value_def digit_value_def)
  have v: "decimal_value ''007'' = 7" by (simp add: decimal_value_def digit_value_def)
  have c: "CHR ''x'' \<noteq> CHR 0x00 \<and> \<not> isdigit CHR ''x''"
    by (simp add: isdigit_def)
  note t = mathlib_parse_int_accepts_space_and_plus [of 5 "''  ''" "''007''",
    THEN conjunct2, THEN conjunct2, THEN conjunct2, THEN mp, OF h]
  from t [THEN conjunct1] t [THEN conjunct2, THEN conjunct1]
    t [THEN conjunct2, THEN conjunct2, THEN spec, THEN spec, THEN mp, OF c]
  show ?thesis unfolding v by simp
qed

end
